theory Spec2Isabelle
  imports Main
begin

section \<open>The single-producer/single-consumer ring buffer of LockFreeSPSC.h\<close>

text \<open>
  The class template \<open>LockFreeSPSC<T, Capacity>\<close> keeps a fixed array of
  \<open>Capacity + 1\<close> slots, two atomic cursors and two private shadow cursors. This
  theory embeds its member functions as functions on a record of the five data members
  and studies them in the sequential model: every call runs to completion before the
  next one starts, so an atomic load reads the field and an atomic store writes it.

  \<open>size_t\<close> is modelled as a natural number below \<open>2 ^ 64\<close> (a 64-bit target);
  the one addition the code performs on it, \<open>current_idx + 1\<close>, and the constant
  \<open>Capacity + 1\<close> are reduced modulo \<open>2 ^ 64\<close> as unsigned arithmetic does. The
  member names of the source end in an underscore (\<open>head_\<close>, \<open>tail_\<close>, ...), which
  the logic does not admit in a constant's name; the fields below drop it. The template
  parameter \<open>Capacity\<close> is the first argument of every function.
\<close>

subsection \<open>Data members\<close>

definition SIZE_MAX :: nat where
  "SIZE_MAX = 2 ^ 64 - 1"

definition size_t :: "nat \<Rightarrow> nat" where
  \<comment> \<open>the value an unsigned \<open>size_t\<close> expression has after wrap-around\<close>
  "size_t n = n mod (SIZE_MAX + 1)"

record 'a spsc =
  buffer :: "'a list"
  head :: nat
  cached_tail :: nat
  tail :: nat
  cached_head :: nat

definition buffer_size :: "nat \<Rightarrow> nat" where
  \<comment> \<open>\<open>static constexpr size_t buffer_size = Capacity + 1\<close>\<close>
  "buffer_size Capacity = size_t (Capacity + 1)"

definition constructed :: "nat \<Rightarrow> 'a spsc \<Rightarrow> bool" where
  \<comment> \<open>A freshly constructed queue: the default member initialisers set the four
      cursors to 0; the array has \<open>buffer_size\<close> slots whose contents the class
      does not choose (default-initialised \<open>T\<close>).\<close>
  "constructed Capacity q \<longleftrightarrow>
     length (buffer q) = buffer_size Capacity \<and>
     head q = 0 \<and> cached_tail q = 0 \<and> tail q = 0 \<and> cached_head q = 0"

subsection \<open>Member functions\<close>

text \<open>
  \<open>buffer_[i]\<close> with \<open>i\<close> outside the array is undefined behaviour; the model makes
  it the result \<open>Inl OutOfBounds\<close>, so that a theorem that a call returns \<open>Inr\<close> says
  that the call stayed inside the array.

  In \<open>push\<close> and \<open>pop\<close>, \<open>refresh\<close> is the outer test of the source (the cheap
  check against the cached cursor) and \<open>q1\<close> is the object after the assignment to the
  cached cursor that the outer \<open>if\<close> guards. The first branch is the inner
  \<open>return false\<close> / \<open>return std::nullopt\<close>; the second is the code after the outer
  \<open>if\<close>. \<open>empty()\<close> is named \<open>empty_q\<close> here.
\<close>

datatype fault = OutOfBounds

definition next_index :: "nat \<Rightarrow> nat \<Rightarrow> nat" where
  "next_index Capacity current_idx = size_t (current_idx + 1) mod buffer_size Capacity"

definition push :: "nat \<Rightarrow> 'a spsc \<Rightarrow> 'a \<Rightarrow> fault + (bool \<times> 'a spsc)" where
  "push Capacity q item =
     (let current_tail = tail q;
          next_tail = next_index Capacity current_tail;
          refresh = (next_tail = cached_head q);
          q1 = (if refresh then q\<lparr>cached_head := head q\<rparr> else q)
      in if refresh \<and> next_tail = cached_head q1 then Inr (False, q1)
         else if current_tail < length (buffer q1)
         then Inr (True, q1\<lparr>buffer := (buffer q1)[current_tail := item], tail := next_tail\<rparr>)
         else Inl OutOfBounds)"

definition pop :: "nat \<Rightarrow> 'a spsc \<Rightarrow> fault + ('a option \<times> 'a spsc)" where
  "pop Capacity q =
     (let current_head = head q;
          refresh = (current_head = cached_tail q);
          q1 = (if refresh then q\<lparr>cached_tail := tail q\<rparr> else q)
      in if refresh \<and> current_head = cached_tail q1 then Inr (None, q1)
         else if current_head < length (buffer q1)
         then Inr (Some (buffer q1 ! current_head),
                   q1\<lparr>head := next_index Capacity current_head\<rparr>)
         else Inl OutOfBounds)"

definition empty_q :: "'a spsc \<Rightarrow> bool" where
  "empty_q q \<longleftrightarrow> head q = tail q"

definition full :: "nat \<Rightarrow> 'a spsc \<Rightarrow> bool" where
  "full Capacity q \<longleftrightarrow> next_index Capacity (tail q) = head q"

subsection \<open>Sequential call sequences\<close>

text \<open>
  A call of the public interface and what it returned. \<open>run\<close> executes a list of
  calls one after the other on the same queue object, which is any interleaving of the
  producer's and the consumer's calls in the sequential model, and collects the return
  values; a fault of one call ends the run.
\<close>

datatype 'a call = Push 'a | Pop

datatype 'a ret = PushRet bool | PopRet "'a option"

fun exec :: "nat \<Rightarrow> 'a spsc \<Rightarrow> 'a call \<Rightarrow> fault + ('a ret \<times> 'a spsc)" where
  "exec Capacity q (Push item) =
     (case push Capacity q item of Inl e \<Rightarrow> Inl e | Inr (b, q') \<Rightarrow> Inr (PushRet b, q'))"
| "exec Capacity q Pop =
     (case pop Capacity q of Inl e \<Rightarrow> Inl e | Inr (r, q') \<Rightarrow> Inr (PopRet r, q'))"

fun run :: "nat \<Rightarrow> 'a spsc \<Rightarrow> 'a call list \<Rightarrow> fault + ('a ret list \<times> 'a spsc)" where
  "run Capacity q [] = Inr ([], q)"
| "run Capacity q (c # cs) =
     (case exec Capacity q c of
        Inl e \<Rightarrow> Inl e
      | Inr (r, q') \<Rightarrow>
          (case run Capacity q' cs of
             Inl e \<Rightarrow> Inl e
           | Inr (rs, q'') \<Rightarrow> Inr (r # rs, q'')))"

fun pushed :: "'a call list \<Rightarrow> 'a list" where
  \<comment> \<open>the values handed to \<open>push\<close>, in call order\<close>
  "pushed [] = []"
| "pushed (Push x # cs) = x # pushed cs"
| "pushed (Pop # cs) = pushed cs"

fun accepted :: "'a call list \<Rightarrow> 'a ret list \<Rightarrow> 'a list" where
  \<comment> \<open>the values whose \<open>push\<close> returned \<open>true\<close>, in call order\<close>
  "accepted (Push x # cs) (PushRet True # rs) = x # accepted cs rs"
| "accepted (c # cs) (r # rs) = accepted cs rs"
| "accepted [] rs = []"
| "accepted cs [] = []"

fun received :: "'a ret list \<Rightarrow> 'a list" where
  \<comment> \<open>the values the \<open>pop\<close> calls returned, in call order\<close>
  "received [] = []"
| "received (PopRet (Some v) # rs) = v # received rs"
| "received (r # rs) = received rs"

subsection \<open>Occupancy, live items and the representation invariant\<close>

text \<open>
  The definitions of this subsection are not code of the class; the properties below are
  stated and proved with them.
\<close>

definition ahead :: "nat \<Rightarrow> nat \<Rightarrow> nat \<Rightarrow> nat" where
  \<comment> \<open>how many steps of \<open>next_index\<close> lead from slot \<open>a\<close> to slot \<open>b\<close> on a ring of
      \<open>M\<close> slots; for \<open>a, b < M\<close> this is \<open>(b - a) mod M\<close> over the integers\<close>
  "ahead M a b = (if a \<le> b then b - a else b + M - a)"

definition count :: "nat \<Rightarrow> 'a spsc \<Rightarrow> nat" where
  "count Capacity q = ahead (buffer_size Capacity) (head q) (tail q)"

definition contents :: "nat \<Rightarrow> 'a spsc \<Rightarrow> 'a list" where
  \<comment> \<open>the live items: the slots from \<open>head\<close> up to, not including, \<open>tail\<close>\<close>
  "contents Capacity q =
     map (\<lambda>k. buffer q ! ((head q + k) mod buffer_size Capacity)) [0..<count Capacity q]"

definition cursor_inv :: "nat \<Rightarrow> 'a spsc \<Rightarrow> bool" where
  \<comment> \<open>The data model's invariant, in its own words: both cursors lie in
      \<open>[0, N + 1)\<close> and the item count \<open>(tail - head) mod (N + 1)\<close>, taken over
      the integers, lies in \<open>[0, N]\<close>.\<close>
  "cursor_inv N q \<longleftrightarrow>
     head q < N + 1 \<and> tail q < N + 1 \<and>
     0 \<le> (int (tail q) - int (head q)) mod int (N + 1) \<and>
     (int (tail q) - int (head q)) mod int (N + 1) \<le> int N"

definition ring_inv :: "nat \<Rightarrow> 'a spsc \<Rightarrow> bool" where
  \<comment> \<open>Going round the ring from \<open>cached_head\<close> one meets \<open>head\<close>, \<open>cached_tail\<close> and
      \<open>tail\<close> in this order within \<open>Capacity\<close> steps.\<close>
  "ring_inv Capacity q \<longleftrightarrow>
     length (buffer q) = buffer_size Capacity \<and>
     head q < buffer_size Capacity \<and> tail q < buffer_size Capacity \<and>
     cached_head q < buffer_size Capacity \<and> cached_tail q < buffer_size Capacity \<and>
     ahead (buffer_size Capacity) (cached_head q) (head q)
       + ahead (buffer_size Capacity) (head q) (cached_tail q)
       + ahead (buffer_size Capacity) (cached_tail q) (tail q) \<le> Capacity"

section \<open>Index arithmetic on the ring\<close>

text \<open>
  \<open>Capacity < SIZE_MAX\<close> is the condition under which the class can be instantiated at
  all: for \<open>Capacity = SIZE_MAX\<close> the constant \<open>buffer_size\<close> wraps to 0 and the member
  \<open>T buffer_[0]\<close> is ill-formed. Under it \<open>buffer_size\<close> is \<open>Capacity + 1\<close> and no
  index computation on an in-range cursor wraps.
\<close>

lemmas eval_defs =
  push_def pop_def Let_def next_index_def buffer_size_def size_t_def SIZE_MAX_def constructed_def

lemma buffer_size_eq: "Capacity < SIZE_MAX \<Longrightarrow> buffer_size Capacity = Suc Capacity"
  by (simp add: buffer_size_def size_t_def)

lemma next_index_eq:
  "Capacity < SIZE_MAX \<Longrightarrow> i \<le> Capacity \<Longrightarrow>
   next_index Capacity i = (if i = Capacity then 0 else Suc i)"
  by (simp add: next_index_def buffer_size_eq size_t_def)

lemma next_index_le: "Capacity < SIZE_MAX \<Longrightarrow> next_index Capacity i \<le> Capacity"
  by (simp add: next_index_def buffer_size_eq less_Suc_eq_le [symmetric])

lemma next_index_mod:
  "Capacity < SIZE_MAX \<Longrightarrow> i \<le> Capacity \<Longrightarrow> next_index Capacity i = Suc i mod Suc Capacity"
  by (simp add: next_index_def buffer_size_eq size_t_def)

lemma ahead_self: "ahead M a a = 0"
  by (simp add: ahead_def)

lemma ahead_eq_0: "a \<le> C \<Longrightarrow> b \<le> C \<Longrightarrow> ahead (Suc C) a b = 0 \<longleftrightarrow> a = b"
  by (auto simp: ahead_def)

lemma ahead_add:
  "a \<le> C \<Longrightarrow> b \<le> C \<Longrightarrow> c \<le> C \<Longrightarrow> ahead (Suc C) a b + ahead (Suc C) b c \<le> C \<Longrightarrow>
   ahead (Suc C) a c = ahead (Suc C) a b + ahead (Suc C) b c"
  by (auto simp: ahead_def split: if_splits)

lemma ahead_next_right:
  "Capacity < SIZE_MAX \<Longrightarrow> a \<le> Capacity \<Longrightarrow> b \<le> Capacity \<Longrightarrow>
   ahead (Suc Capacity) a (next_index Capacity b) =
     (if ahead (Suc Capacity) a b = Capacity then 0 else Suc (ahead (Suc Capacity) a b))"
  by (auto simp: ahead_def next_index_eq)

lemma ahead_next_left:
  "Capacity < SIZE_MAX \<Longrightarrow> a \<le> Capacity \<Longrightarrow> b \<le> Capacity \<Longrightarrow> a \<noteq> b \<Longrightarrow>
   Suc (ahead (Suc Capacity) (next_index Capacity a) b) = ahead (Suc Capacity) a b"
  by (auto simp: ahead_def next_index_eq)

lemma ring_walk_end:
  assumes "a \<le> C" "b \<le> C"
  shows "(a + ahead (Suc C) a b) mod Suc C = b"
proof (cases "a \<le> b")
  case True
  then show ?thesis using assms(2) by (simp add: ahead_def)
next
  case False
  then have "a + ahead (Suc C) a b = b + Suc C"
    using assms(1) by (simp add: ahead_def)
  then have "(a + ahead (Suc C) a b) mod Suc C = b mod Suc C"
    by (simp only: mod_add_self2)
  then show ?thesis using assms(2) by simp
qed

lemma ring_mod:
  "a \<le> C \<Longrightarrow> k \<le> C \<Longrightarrow> (a + k) mod Suc C = (if a + k \<le> C then a + k else a + k - Suc C)"
  by (simp add: mod_if)

lemma ring_walk_before:
  "a \<le> C \<Longrightarrow> b \<le> C \<Longrightarrow> k < ahead (Suc C) a b \<Longrightarrow> (a + k) mod Suc C \<noteq> b"
  by (auto simp: ahead_def ring_mod split: if_splits)

lemma int_mod_ahead:
  assumes "a \<le> C" "b \<le> C"
  shows "(int b - int a) mod int (Suc C) = int (ahead (Suc C) a b)"
proof (cases "a \<le> b")
  case True
  then have "int b - int a = int (b - a)" by simp
  moreover have "b - a < Suc C" using assms(2) by simp
  ultimately show ?thesis using True by (simp add: ahead_def del: of_nat_Suc)
next
  case False
  have "(int b - int a) mod int (Suc C) = (int b - int a + int (Suc C)) mod int (Suc C)"
    by (simp only: mod_add_self2)
  also have "int b - int a + int (Suc C) = int (b + Suc C - a)"
    using assms(1) by simp
  also have "int (b + Suc C - a) mod int (Suc C) = int (b + Suc C - a)"
    using False by (simp del: of_nat_Suc)
  finally show ?thesis using False by (simp add: ahead_def)
qed

section \<open>The representation invariant\<close>

lemma constructed_inv: "Capacity < SIZE_MAX \<Longrightarrow> constructed Capacity q \<Longrightarrow> ring_inv Capacity q"
  by (simp add: constructed_def ring_inv_def ahead_def buffer_size_eq)

lemma constructed_contents: "constructed Capacity q \<Longrightarrow> contents Capacity q = []"
  by (simp add: constructed_def contents_def count_def ahead_def)

lemma length_contents: "length (contents Capacity q) = count Capacity q"
  by (simp add: contents_def)

lemma count_0_iff: "count Capacity q = 0 \<longleftrightarrow> contents Capacity q = []"
  by (simp add: contents_def)

lemma inv_bounds:
  assumes "Capacity < SIZE_MAX" "ring_inv Capacity q"
  shows "head q \<le> Capacity" "tail q \<le> Capacity" "cached_head q \<le> Capacity"
    "cached_tail q \<le> Capacity" "length (buffer q) = Suc Capacity"
    "ahead (Suc Capacity) (cached_head q) (head q)
       + ahead (Suc Capacity) (head q) (cached_tail q)
       + ahead (Suc Capacity) (cached_tail q) (tail q) \<le> Capacity"
  using assms by (simp_all add: ring_inv_def buffer_size_eq)

lemma count_split:
  assumes "Capacity < SIZE_MAX" "ring_inv Capacity q"
  shows "count Capacity q =
     ahead (Suc Capacity) (head q) (cached_tail q) + ahead (Suc Capacity) (cached_tail q) (tail q)"
proof -
  note b = inv_bounds [OF assms]
  have "ahead (Suc Capacity) (head q) (tail q) =
     ahead (Suc Capacity) (head q) (cached_tail q) + ahead (Suc Capacity) (cached_tail q) (tail q)"
    using b(1,4,2,6) by (intro ahead_add) simp_all
  then show ?thesis by (simp add: count_def buffer_size_eq assms(1))
qed

lemma count_le: "Capacity < SIZE_MAX \<Longrightarrow> ring_inv Capacity q \<Longrightarrow> count Capacity q \<le> Capacity"
  using inv_bounds(6) [of Capacity q] count_split [of Capacity q] by simp

lemma span_split:
  assumes "Capacity < SIZE_MAX" "ring_inv Capacity q"
  shows "ahead (Suc Capacity) (cached_head q) (tail q) =
     ahead (Suc Capacity) (cached_head q) (head q) + count Capacity q"
proof -
  note b = inv_bounds [OF assms]
  have "ahead (Suc Capacity) (cached_head q) (tail q) =
        ahead (Suc Capacity) (cached_head q) (head q) + ahead (Suc Capacity) (head q) (tail q)"
    using b(3,1,2,6) count_split [OF assms]
    by (intro ahead_add) (simp_all add: count_def buffer_size_eq assms(1))
  then show ?thesis by (simp add: count_def buffer_size_eq assms(1))
qed

lemma full_iff_count:
  assumes "Capacity < SIZE_MAX" "ring_inv Capacity q"
  shows "full Capacity q \<longleftrightarrow> count Capacity q = Capacity"
proof -
  note b = inv_bounds [OF assms]
  have "full Capacity q \<longleftrightarrow> ahead (Suc Capacity) (head q) (next_index Capacity (tail q)) = 0"
    using b(1) next_index_le [OF assms(1), of "tail q"]
    by (auto simp: full_def ahead_eq_0)
  also have "\<dots> \<longleftrightarrow> ahead (Suc Capacity) (head q) (tail q) = Capacity"
    using b(1,2) by (simp add: ahead_next_right assms(1))
  finally show ?thesis by (simp add: count_def buffer_size_eq assms(1))
qed

lemma cursor_inv_iff:
  "cursor_inv Capacity q \<longleftrightarrow> head q \<le> Capacity \<and> tail q \<le> Capacity"
proof -
  have "0 \<le> (int (tail q) - int (head q)) mod int (Capacity + 1)"
    by (rule pos_mod_sign) simp
  moreover have "(int (tail q) - int (head q)) mod int (Capacity + 1) < int (Capacity + 1)"
    by (rule pos_mod_bound) simp
  then have "(int (tail q) - int (head q)) mod int (Capacity + 1) \<le> int Capacity"
    by linarith
  ultimately show ?thesis
    unfolding cursor_inv_def by auto
qed

section \<open>One call on a queue that satisfies the invariant\<close>

text \<open>
  A \<open>push\<close> on a queue holding \<open>Capacity\<close> items is refused and changes nothing; on
  any other it appends the item to the live items. A \<open>pop\<close> on a queue holding no
  item returns nothing and changes nothing; on any other it removes the oldest live item.
  Neither reads or writes outside the array.
\<close>

lemma push_full:
  assumes "Capacity < SIZE_MAX" "ring_inv Capacity q" "count Capacity q = Capacity"
  shows "push Capacity q x = Inr (False, q)"
proof -
  note b = inv_bounds [OF assms(1,2)]
  have "ahead (Suc Capacity) (cached_head q) (head q) = 0"
    using b(6) count_split [OF assms(1,2)] assms(3) by simp
  then have ch: "cached_head q = head q"
    using b(1,3) by (simp add: ahead_eq_0)
  have "ahead (Suc Capacity) (head q) (next_index Capacity (tail q)) = 0"
    using assms(3) b(1,2) by (simp add: ahead_next_right assms(1) count_def buffer_size_eq)
  then have "next_index Capacity (tail q) = head q"
    using b(1) next_index_le [OF assms(1), of "tail q"] by (simp add: ahead_eq_0)
  then show ?thesis
    by (simp add: push_def Let_def ch)
qed

lemma push_ok_state:
  assumes "Capacity < SIZE_MAX" "ring_inv Capacity q" "count Capacity q < Capacity"
  shows "\<exists>q'. push Capacity q x = Inr (True, q') \<and> ring_inv Capacity q' \<and>
              count Capacity q' = Suc (count Capacity q) \<and> head q' = head q \<and>
              buffer q' = (buffer q)[tail q := x]"
proof -
  let ?nt = "next_index Capacity (tail q)"
  let ?ch = "if ?nt = cached_head q then head q else cached_head q"
  let ?q' = "q\<lparr>cached_head := ?ch, buffer := (buffer q)[tail q := x], tail := ?nt\<rparr>"
  note b = inv_bounds [OF assms(1,2)]
  note cs = count_split [OF assms(1,2)]
  have ntle: "?nt \<le> Capacity"
    by (rule next_index_le [OF assms(1)])
  have n: "ahead (Suc Capacity) (head q) ?nt = Suc (count Capacity q)"
    using assms(3) b(1,2) by (simp add: ahead_next_right assms(1) count_def buffer_size_eq)
  then have nf: "?nt \<noteq> head q"
    using b(1) ntle ahead_eq_0 [of "head q" Capacity ?nt] by simp
  have p: "push Capacity q x = Inr (True, ?q')"
    using nf b(2,5) by (simp add: push_def Let_def)
  have z: "ahead (Suc Capacity) (cached_tail q) ?nt =
           Suc (ahead (Suc Capacity) (cached_tail q) (tail q))"
    using assms(3) cs b(2,4) by (simp add: ahead_next_right assms(1))
  have s: "ahead (Suc Capacity) ?ch (head q) + ahead (Suc Capacity) (head q) (cached_tail q)
             + ahead (Suc Capacity) (cached_tail q) ?nt \<le> Capacity"
  proof (cases "?nt = cached_head q")
    case True
    then show ?thesis using assms(3) cs z by (simp add: ahead_self)
  next
    case False
    have "ahead (Suc Capacity) (cached_head q) ?nt \<noteq> 0"
      using False b(3) ntle ahead_eq_0 [of "cached_head q" Capacity ?nt] by simp
    then have "ahead (Suc Capacity) (cached_head q) (tail q) \<noteq> Capacity"
      using b(2,3) by (simp add: ahead_next_right assms(1) split: if_splits)
    then have "ahead (Suc Capacity) (cached_head q) (head q) + count Capacity q < Capacity"
      using span_split [OF assms(1,2)] b(6) cs by simp
    then show ?thesis using False cs z by simp
  qed
  have i: "ring_inv Capacity ?q'"
    unfolding ring_inv_def buffer_size_eq [OF assms(1)]
    using b(1,3,4,5) ntle s by (simp add: less_Suc_eq_le)
  have c: "count Capacity ?q' = Suc (count Capacity q)"
    using n by (simp add: count_def buffer_size_eq assms(1))
  show ?thesis using p i c by (intro exI [of _ ?q']) simp
qed

lemma push_ok:
  assumes "Capacity < SIZE_MAX" "ring_inv Capacity q" "count Capacity q < Capacity"
  shows "\<exists>q'. push Capacity q x = Inr (True, q') \<and> ring_inv Capacity q' \<and>
              contents Capacity q' = contents Capacity q @ [x]"
proof -
  from push_ok_state [OF assms, of x] obtain q' where
    p: "push Capacity q x = Inr (True, q')" and i: "ring_inv Capacity q'"
    and c: "count Capacity q' = Suc (count Capacity q)" and h: "head q' = head q"
    and b: "buffer q' = (buffer q)[tail q := x]"
    by blast
  let ?M = "Suc Capacity"
  let ?n = "count Capacity q"
  let ?slot = "\<lambda>k. (head q + k) mod ?M"
  note r = inv_bounds [OF assms(1,2)]
  have n: "?n = ahead ?M (head q) (tail q)"
    by (simp add: count_def buffer_size_eq assms(1))
  have last: "?slot ?n = tail q"
    unfolding n using r(1,2) by (rule ring_walk_end)
  have "contents Capacity q' =
        map (\<lambda>k. (buffer q)[tail q := x] ! ?slot k) [0..<?n] @ [(buffer q)[tail q := x] ! ?slot ?n]"
    by (simp add: contents_def c h b buffer_size_eq assms(1))
  also have "map (\<lambda>k. (buffer q)[tail q := x] ! ?slot k) [0..<?n] = contents Capacity q"
    unfolding contents_def buffer_size_eq [OF assms(1)]
  proof (rule map_cong [OF refl])
    fix k assume "k \<in> set [0..<?n]"
    then have "k < ahead ?M (head q) (tail q)" by (simp add: n)
    with r(1,2) have "?slot k \<noteq> tail q" by (rule ring_walk_before)
    then show "(buffer q)[tail q := x] ! ?slot k = buffer q ! ?slot k"
      by (simp only: nth_list_update_neq not_sym)
  qed
  also have "(buffer q)[tail q := x] ! ?slot ?n = x"
    unfolding last using r(2,5) by simp
  finally have "contents Capacity q' = contents Capacity q @ [x]" .
  with p i show ?thesis by blast
qed

lemma pop_empty:
  assumes "Capacity < SIZE_MAX" "ring_inv Capacity q" "count Capacity q = 0"
  shows "pop Capacity q = Inr (None, q)"
proof -
  note b = inv_bounds [OF assms(1,2)]
  have "head q = tail q"
    using assms(3) b(1,2) ahead_eq_0 [of "head q" Capacity "tail q"]
    by (simp add: count_def buffer_size_eq assms(1))
  moreover have "head q = cached_tail q"
    using assms(3) count_split [OF assms(1,2)] b(1,4)
      ahead_eq_0 [of "head q" Capacity "cached_tail q"] by simp
  ultimately show ?thesis
    by (simp add: pop_def Let_def)
qed

lemma pop_ok_state:
  assumes "Capacity < SIZE_MAX" "ring_inv Capacity q" "0 < count Capacity q"
  shows "\<exists>q'. pop Capacity q = Inr (Some (buffer q ! head q), q') \<and> ring_inv Capacity q' \<and>
              Suc (count Capacity q') = count Capacity q \<and>
              head q' = next_index Capacity (head q) \<and> buffer q' = buffer q"
proof -
  let ?nh = "next_index Capacity (head q)"
  let ?ct = "if head q = cached_tail q then tail q else cached_tail q"
  let ?q' = "q\<lparr>cached_tail := ?ct, head := ?nh\<rparr>"
  note b = inv_bounds [OF assms(1,2)]
  note cs = count_split [OF assms(1,2)]
  have nhle: "?nh \<le> Capacity"
    by (rule next_index_le [OF assms(1)])
  have ne: "head q \<noteq> tail q"
    using assms(3) by (auto simp: count_def ahead_self)
  have p: "pop Capacity q = Inr (Some (buffer q ! head q), ?q')"
    using ne b(1,5) by (simp add: pop_def Let_def)
  have c: "Suc (count Capacity ?q') = count Capacity q"
    using ne b(1,2) by (simp add: count_def buffer_size_eq assms(1) ahead_next_left)
  have x: "ahead (Suc Capacity) (cached_head q) ?nh =
           Suc (ahead (Suc Capacity) (cached_head q) (head q))"
  proof -
    have "ahead (Suc Capacity) (cached_head q) (head q) < Capacity"
      using assms(3) cs b(6) by linarith
    then show ?thesis
      using b(1,3) by (simp add: ahead_next_right assms(1))
  qed
  have ctle: "?ct \<le> Capacity"
    using b(2,4) by simp
  have hne: "head q \<noteq> ?ct"
    using ne by simp
  have yz: "ahead (Suc Capacity) (head q) ?ct + ahead (Suc Capacity) ?ct (tail q) =
            count Capacity q"
    using cs by (simp add: ahead_self count_def buffer_size_eq assms(1))
  have y: "Suc (ahead (Suc Capacity) ?nh ?ct) = ahead (Suc Capacity) (head q) ?ct"
    using hne b(1) ctle by (intro ahead_next_left [OF assms(1)])
  have s: "ahead (Suc Capacity) (cached_head q) ?nh + ahead (Suc Capacity) ?nh ?ct
             + ahead (Suc Capacity) ?ct (tail q) \<le> Capacity"
    using x y yz b(6) cs by linarith
  have i: "ring_inv Capacity ?q'"
    unfolding ring_inv_def buffer_size_eq [OF assms(1)]
    using b(2,3,5) nhle ctle s by (simp add: less_Suc_eq_le)
  show ?thesis using p i c by (intro exI [of _ ?q']) simp
qed

lemma pop_ok:
  assumes "Capacity < SIZE_MAX" "ring_inv Capacity q" "0 < count Capacity q"
  shows "\<exists>v q'. pop Capacity q = Inr (Some v, q') \<and> ring_inv Capacity q' \<and>
                contents Capacity q = v # contents Capacity q'"
proof -
  from pop_ok_state [OF assms] obtain q' where
    p: "pop Capacity q = Inr (Some (buffer q ! head q), q')" and i: "ring_inv Capacity q'"
    and c: "Suc (count Capacity q') = count Capacity q"
    and h: "head q' = next_index Capacity (head q)" and b: "buffer q' = buffer q"
    by blast
  let ?M = "Suc Capacity"
  note r = inv_bounds [OF assms(1,2)]
  have h': "head q' = Suc (head q) mod ?M"
    unfolding h using assms(1) r(1) by (rule next_index_mod)
  have idx: "(head q' + k) mod ?M = (head q + Suc k) mod ?M" for k
    unfolding h' by (simp add: mod_add_left_eq)
  have "[0..<count Capacity q] = 0 # map Suc [0..<count Capacity q']"
    unfolding c [symmetric] by (simp only: upt_conv_Cons zero_less_Suc map_Suc_upt)
  then have "contents Capacity q =
        buffer q ! head q # map (\<lambda>k. buffer q ! ((head q + Suc k) mod ?M)) [0..<count Capacity q']"
    using r(1) by (simp add: contents_def buffer_size_eq assms(1) comp_def)
  also have "map (\<lambda>k. buffer q ! ((head q + Suc k) mod ?M)) [0..<count Capacity q'] =
             contents Capacity q'"
    unfolding contents_def buffer_size_eq [OF assms(1)] b
    by (rule map_cong [OF refl]) (simp only: idx)
  finally show ?thesis using p i by blast
qed

lemma push_cursors:
  assumes "Capacity < SIZE_MAX" "push Capacity s x = Inr (b, s')"
  shows "head s' = head s \<and> (tail s' = tail s \<or> tail s' = next_index Capacity (tail s))"
  using assms(2) by (auto simp: push_def Let_def split: if_splits)

lemma pop_cursors:
  assumes "Capacity < SIZE_MAX" "pop Capacity s = Inr (r, s')"
  shows "tail s' = tail s \<and> (head s' = head s \<or> head s' = next_index Capacity (head s))"
  using assms(2) by (auto simp: pop_def Let_def split: if_splits)

lemma exec_push_inv:
  assumes "Capacity < SIZE_MAX" "ring_inv Capacity q"
  shows "\<exists>b q'. exec Capacity q (Push x) = Inr (PushRet b, q') \<and> ring_inv Capacity q' \<and>
           contents Capacity q' = contents Capacity q @ (if b then [x] else [])"
proof (cases "count Capacity q < Capacity")
  case True
  from push_ok [OF assms True, of x] show ?thesis by auto
next
  case False
  then have "count Capacity q = Capacity"
    using count_le [OF assms] by simp
  from push_full [OF assms this, of x] assms(2) show ?thesis by auto
qed

lemma exec_pop_inv:
  assumes "Capacity < SIZE_MAX" "ring_inv Capacity q"
  shows "\<exists>r q'. exec Capacity q Pop = Inr (PopRet r, q') \<and> ring_inv Capacity q' \<and>
           contents Capacity q = (case r of None \<Rightarrow> [] | Some v \<Rightarrow> [v]) @ contents Capacity q'"
proof (cases "0 < count Capacity q")
  case True
  from pop_ok [OF assms True] show ?thesis by auto
next
  case False
  then have z: "count Capacity q = 0" by simp
  from pop_empty [OF assms z] assms(2) z show ?thesis by (auto simp: count_0_iff)
qed

section \<open>Call sequences\<close>

lemma run_append:
  "run Capacity q (cs @ ds) =
     (case run Capacity q cs of
        Inl e \<Rightarrow> Inl e
      | Inr (rs, q') \<Rightarrow>
          (case run Capacity q' ds of
             Inl e \<Rightarrow> Inl e
           | Inr (ss, q'') \<Rightarrow> Inr (rs @ ss, q'')))"
  by (induction cs arbitrary: q) (auto split: sum.splits prod.splits)

lemma run_inv:
  assumes "Capacity < SIZE_MAX" "ring_inv Capacity q"
  shows "\<exists>rs q'. run Capacity q cs = Inr (rs, q') \<and> ring_inv Capacity q' \<and>
           length rs = length cs \<and>
           contents Capacity q @ accepted cs rs = received rs @ contents Capacity q'"
  using assms(2)
proof (induction cs arbitrary: q)
  case Nil
  then show ?case by simp
next
  case (Cons c cs)
  show ?case
  proof (cases c)
    case (Push x)
    from exec_push_inv [OF assms(1) Cons.prems, of x] obtain b q1 where
      e: "exec Capacity q (Push x) = Inr (PushRet b, q1)" and i: "ring_inv Capacity q1"
      and c1: "contents Capacity q1 = contents Capacity q @ (if b then [x] else [])"
      by blast
    from Cons.IH [OF i] obtain rs q' where
      r: "run Capacity q1 cs = Inr (rs, q')" and i': "ring_inv Capacity q'"
      and l: "length rs = length cs"
      and a: "contents Capacity q1 @ accepted cs rs = received rs @ contents Capacity q'"
      by blast
    have "run Capacity q (c # cs) = Inr (PushRet b # rs, q')"
      using e r Push by simp
    moreover have "contents Capacity q @ accepted (c # cs) (PushRet b # rs) =
                   received (PushRet b # rs) @ contents Capacity q'"
      using a c1 Push by (cases b) simp_all
    ultimately show ?thesis using i' l by auto
  next
    case Pop
    from exec_pop_inv [OF assms(1) Cons.prems] obtain v q1 where
      e: "exec Capacity q Pop = Inr (PopRet v, q1)" and i: "ring_inv Capacity q1"
      and c1: "contents Capacity q = (case v of None \<Rightarrow> [] | Some v \<Rightarrow> [v]) @ contents Capacity q1"
      by blast
    from Cons.IH [OF i] obtain rs q' where
      r: "run Capacity q1 cs = Inr (rs, q')" and i': "ring_inv Capacity q'"
      and l: "length rs = length cs"
      and a: "contents Capacity q1 @ accepted cs rs = received rs @ contents Capacity q'"
      by blast
    have "run Capacity q (c # cs) = Inr (PopRet v # rs, q')"
      using e r Pop by simp
    moreover have "contents Capacity q @ accepted (c # cs) (PopRet v # rs) =
                   received (PopRet v # rs) @ contents Capacity q'"
      using a c1 Pop by (cases v) simp_all
    ultimately show ?thesis using i' l by auto
  qed
qed

lemma run_pushes:
  assumes "Capacity < SIZE_MAX"
  shows "ring_inv Capacity q \<Longrightarrow> count Capacity q + length xs \<le> Capacity \<Longrightarrow>
         \<exists>q'. run Capacity q (map Push xs) = Inr (replicate (length xs) (PushRet True), q') \<and>
              ring_inv Capacity q' \<and> contents Capacity q' = contents Capacity q @ xs"
proof (induction xs arbitrary: q)
  case Nil
  then show ?case by simp
next
  case (Cons x xs)
  from Cons.prems(2) have "count Capacity q < Capacity" by simp
  from push_ok [OF assms Cons.prems(1) this, of x] obtain q1 where
    p: "push Capacity q x = Inr (True, q1)" and i: "ring_inv Capacity q1"
    and c: "contents Capacity q1 = contents Capacity q @ [x]"
    by blast
  have "count Capacity q1 = Suc (count Capacity q)"
    using c by (simp add: length_contents [symmetric])
  then have "count Capacity q1 + length xs \<le> Capacity"
    using Cons.prems(2) by simp
  from Cons.IH [OF i this] c p show ?case by auto
qed

lemma run_pops:
  assumes "Capacity < SIZE_MAX"
  shows "ring_inv Capacity q \<Longrightarrow> contents Capacity q = ds @ es \<Longrightarrow>
         \<exists>q'. run Capacity q (replicate (length ds) Pop) = Inr (map (\<lambda>v. PopRet (Some v)) ds, q') \<and>
              ring_inv Capacity q' \<and> contents Capacity q' = es"
proof (induction ds arbitrary: q)
  case Nil
  then show ?case by simp
next
  case (Cons d ds)
  from Cons.prems(2) have "0 < count Capacity q"
    by (simp add: length_contents [symmetric])
  from pop_ok [OF assms Cons.prems(1) this] obtain v q1 where
    p: "pop Capacity q = Inr (Some v, q1)" and i: "ring_inv Capacity q1"
    and c: "contents Capacity q = v # contents Capacity q1"
    by blast
  from c Cons.prems(2) have v: "v = d" and c1: "contents Capacity q1 = ds @ es" by simp_all
  from Cons.IH [OF i c1] p v show ?case by auto
qed

lemma run_accepted:
  "run Capacity q cs = Inr (rs, q') \<Longrightarrow> PushRet False \<notin> set rs \<Longrightarrow> accepted cs rs = pushed cs"
proof (induction cs arbitrary: q rs)
  case Nil
  then show ?case by simp
next
  case (Cons c cs)
  then show ?case
    by (cases c) (auto split: sum.splits prod.splits)
qed

lemma reachable_inv:
  assumes "Capacity < SIZE_MAX" "constructed Capacity q0"
  shows "\<exists>rs q. run Capacity q0 cs = Inr (rs, q) \<and> ring_inv Capacity q \<and>
           length rs = length cs \<and> accepted cs rs = received rs @ contents Capacity q"
  using run_inv [OF assms(1) constructed_inv [OF assms], of cs] constructed_contents [OF assms(2)]
  by simp

lemma drain:
  assumes "Capacity < SIZE_MAX" "ring_inv Capacity q"
  shows "\<exists>q'. run Capacity q (replicate (length (contents Capacity q)) Pop @ [Pop]) =
           Inr (map (\<lambda>v. PopRet (Some v)) (contents Capacity q) @ [PopRet None], q')"
proof -
  from run_pops [OF assms, of "contents Capacity q" "[]"] obtain q1 where
    r: "run Capacity q (replicate (length (contents Capacity q)) Pop) =
          Inr (map (\<lambda>v. PopRet (Some v)) (contents Capacity q), q1)"
    and i: "ring_inv Capacity q1" and c: "contents Capacity q1 = []"
    by auto
  have "pop Capacity q1 = Inr (None, q1)"
    using pop_empty [OF assms(1) i] c by (simp add: count_0_iff)
  then show ?thesis using r by (simp add: run_append)
qed

text \<open>
  A run on a three-slot buffer (\<open>Capacity = 2\<close>) that fills the queue, is refused once,
  wraps both cursors round the end of the array and drains the queue.
\<close>

lemma run_example:
  "run 2 \<lparr>buffer = [0, 0, 0 :: nat], head = 0, cached_tail = 0, tail = 0, cached_head = 0\<rparr>
        [Push 10, Push 20, Push 30, Pop, Push 40, Pop, Pop, Pop] =
     Inr ([PushRet True, PushRet True, PushRet False, PopRet (Some 10), PushRet True,
           PopRet (Some 20), PopRet (Some 40), PopRet None],
          \<lparr>buffer = [10, 20, 40], head = 0, cached_tail = 0, tail = 0, cached_head = 1\<rparr>)"
  by (simp add: eval_defs)

section \<open>The properties of the specification\<close>

subsection \<open>C1: first in, first out, without loss or duplication\<close>

text \<open>
  C1. Take a freshly constructed queue of any capacity and any sequence \<open>cs\<close> of
  \<open>push\<close> and \<open>pop\<close> calls, in any interleaving. Every call returns. If the consumer
  then pops until \<open>pop\<close> returns nothing, this takes finitely many calls: some
  \<open>length ds\<close> of them return the values \<open>ds\<close> and the next one returns nothing. The
  values received by all the \<open>pop\<close> calls, in order, are then exactly the values whose
  \<open>push\<close> was accepted, in order; when no \<open>push\<close> was refused these are all the values
  pushed. So nothing is lost, duplicated or reordered.
\<close>

theorem fifo_no_loss_no_duplication:
  assumes "Capacity < SIZE_MAX" and "constructed Capacity q0"
  shows "\<exists>rs q ds q'.
           run Capacity q0 cs = Inr (rs, q) \<and>
           run Capacity q (replicate (length ds) Pop @ [Pop]) =
             Inr (map (\<lambda>v. PopRet (Some v)) ds @ [PopRet None], q') \<and>
           received rs @ ds = accepted cs rs \<and>
           (PushRet False \<notin> set rs \<longrightarrow> received rs @ ds = pushed cs)"
proof -
  from reachable_inv [OF assms, of cs] obtain rs q where
    r: "run Capacity q0 cs = Inr (rs, q)" and i: "ring_inv Capacity q"
    and a: "accepted cs rs = received rs @ contents Capacity q"
    by blast
  from drain [OF assms(1) i] obtain q' where
    d: "run Capacity q (replicate (length (contents Capacity q)) Pop @ [Pop]) =
          Inr (map (\<lambda>v. PopRet (Some v)) (contents Capacity q) @ [PopRet None], q')"
    by blast
  have "PushRet False \<notin> set rs \<longrightarrow> received rs @ contents Capacity q = pushed cs"
    using run_accepted [OF r] a by simp
  with r d a show ?thesis by (intro exI [of _ rs] exI [of _ q] exI [of _ "contents Capacity q"] exI [of _ q']) simp
qed

theorem fifo_no_loss_no_duplication_witness:
  "(2::nat) < SIZE_MAX \<and>
   constructed 2 \<lparr>buffer = [0, 0, 0 :: nat], head = 0, cached_tail = 0, tail = 0, cached_head = 0\<rparr> \<and>
   run 2 \<lparr>buffer = [0, 0, 0 :: nat], head = 0, cached_tail = 0, tail = 0, cached_head = 0\<rparr> [Push 10, Push 20, Pop, Push 30] =
     Inr ([PushRet True, PushRet True, PopRet (Some 10), PushRet True], \<lparr>buffer = [10, 20, 30 :: nat], head = 1, cached_tail = 2, tail = 0, cached_head = 1\<rparr>) \<and>
   PushRet False \<notin> set [PushRet True, PushRet True, PopRet (Some (10 :: nat)), PushRet True] \<and>
   (\<exists>ds q'.
      run 2 \<lparr>buffer = [10, 20, 30 :: nat], head = 1, cached_tail = 2, tail = 0, cached_head = 1\<rparr> (replicate (length ds) Pop @ [Pop]) =
        Inr (map (\<lambda>v. PopRet (Some v)) ds @ [PopRet None], q') \<and>
      received [PushRet True, PushRet True, PopRet (Some 10), PushRet True] @ ds =
        pushed [Push 10, Push 20, Pop, Push 30])"
proof -
  let ?cs = "[Push 10, Push 20, Pop, Push (30 :: nat)]"
  let ?rs = "[PushRet True, PushRet True, PopRet (Some (10 :: nat)), PushRet True]"
  let ?q = "\<lparr>buffer = [10, 20, 30 :: nat], head = 1, cached_tail = 2, tail = 0, cached_head = 1\<rparr>"
  have c: "(2::nat) < SIZE_MAX"
    by (simp add: SIZE_MAX_def)
  have f: "constructed 2 \<lparr>buffer = [0, 0, 0 :: nat], head = 0, cached_tail = 0, tail = 0, cached_head = 0\<rparr>"
    by (simp add: eval_defs)
  have r: "run 2 \<lparr>buffer = [0, 0, 0 :: nat], head = 0, cached_tail = 0, tail = 0, cached_head = 0\<rparr> ?cs = Inr (?rs, ?q)"
    by (simp add: eval_defs)
  have n: "PushRet False \<notin> set ?rs"
    by simp
  from fifo_no_loss_no_duplication [OF c f, of ?cs] obtain rs q ds q' where
    1: "run 2 \<lparr>buffer = [0, 0, 0 :: nat], head = 0, cached_tail = 0, tail = 0, cached_head = 0\<rparr> ?cs = Inr (rs, q)"
    and 2: "run 2 q (replicate (length ds) Pop @ [Pop]) =
              Inr (map (\<lambda>v. PopRet (Some v)) ds @ [PopRet None], q')"
    and 3: "PushRet False \<notin> set rs \<longrightarrow> received rs @ ds = pushed ?cs"
    by blast
  from 1 r have e: "rs = ?rs" "q = ?q"
    by simp_all
  from 2 3 n have "\<exists>ds q'.
      run 2 ?q (replicate (length ds) Pop @ [Pop]) =
        Inr (map (\<lambda>v. PopRet (Some v)) ds @ [PopRet None], q') \<and>
      received ?rs @ ds = pushed ?cs"
    unfolding e by blast
  with c f r n show ?thesis by (intro conjI)
qed

subsection \<open>C2: the capacity boundary\<close>

text \<open>
  C2. On a freshly constructed queue of capacity \<open>C \<ge> 1\<close>, \<open>C\<close> consecutive \<open>push\<close>
  calls all return \<open>true\<close> and the next \<open>push\<close> returns \<open>false\<close>. Popping \<open>C\<close> times
  then returns the \<open>C\<close> values in order; after that \<open>full()\<close> is false and a \<open>push\<close>
  returns \<open>true\<close> again. After any sequence of calls the number of items accepted and not
  yet popped is at most \<open>C\<close>.
\<close>

theorem capacity_boundary:
  assumes "1 \<le> Capacity" and "Capacity < SIZE_MAX" and "constructed Capacity q0"
    and "length xs = Capacity"
  shows "(\<exists>q1 q2 q3.
            run Capacity q0 (map Push xs) = Inr (replicate Capacity (PushRet True), q1) \<and>
            push Capacity q1 y = Inr (False, q1) \<and>
            run Capacity q1 (replicate Capacity Pop) = Inr (map (\<lambda>v. PopRet (Some v)) xs, q2) \<and>
            \<not> full Capacity q2 \<and>
            push Capacity q2 z = Inr (True, q3)) \<and>
         (\<exists>rs q. run Capacity q0 cs = Inr (rs, q) \<and>
            length (accepted cs rs) \<le> length (received rs) + Capacity)"
proof
  note i0 = constructed_inv [OF assms(2,3)]
  note c0 = constructed_contents [OF assms(3)]
  have "count Capacity q0 + length xs \<le> Capacity"
    using c0 assms(4) by (simp add: length_contents [symmetric])
  from run_pushes [OF assms(2) i0 this] obtain q1 where
    r1: "run Capacity q0 (map Push xs) = Inr (replicate Capacity (PushRet True), q1)"
    and i1: "ring_inv Capacity q1" and c1: "contents Capacity q1 = xs"
    using c0 assms(4) by auto
  have "count Capacity q1 = Capacity"
    using c1 assms(4) by (simp add: length_contents [symmetric])
  from push_full [OF assms(2) i1 this] have p1: "push Capacity q1 y = Inr (False, q1)" .
  from run_pops [OF assms(2) i1, of xs "[]"] obtain q2 where
    r2: "run Capacity q1 (replicate Capacity Pop) = Inr (map (\<lambda>v. PopRet (Some v)) xs, q2)"
    and i2: "ring_inv Capacity q2" and c2: "contents Capacity q2 = []"
    using c1 assms(4) by auto
  have n2: "count Capacity q2 = 0"
    using c2 by (simp add: count_0_iff)
  then have f2: "\<not> full Capacity q2"
    using assms(1) by (simp add: full_iff_count [OF assms(2) i2])
  have "count Capacity q2 < Capacity"
    using n2 assms(1) by simp
  from push_ok [OF assms(2) i2 this, of z] obtain q3 where
    "push Capacity q2 z = Inr (True, q3)" by blast
  with r1 p1 r2 f2 show "\<exists>q1 q2 q3.
            run Capacity q0 (map Push xs) = Inr (replicate Capacity (PushRet True), q1) \<and>
            push Capacity q1 y = Inr (False, q1) \<and>
            run Capacity q1 (replicate Capacity Pop) = Inr (map (\<lambda>v. PopRet (Some v)) xs, q2) \<and>
            \<not> full Capacity q2 \<and>
            push Capacity q2 z = Inr (True, q3)"
    by blast
next
  from reachable_inv [OF assms(2,3), of cs] obtain rs q where
    r: "run Capacity q0 cs = Inr (rs, q)" and i: "ring_inv Capacity q"
    and a: "accepted cs rs = received rs @ contents Capacity q"
    by blast
  have "length (accepted cs rs) = length (received rs) + count Capacity q"
    using a by (simp add: length_contents)
  then have "length (accepted cs rs) \<le> length (received rs) + Capacity"
    using count_le [OF assms(2) i] by simp
  with r show "\<exists>rs q. run Capacity q0 cs = Inr (rs, q) \<and>
            length (accepted cs rs) \<le> length (received rs) + Capacity"
    by blast
qed

theorem capacity_boundary_witness:
  "(1::nat) \<le> 2 \<and> (2::nat) < SIZE_MAX \<and>
   constructed 2 \<lparr>buffer = [0, 0, 0 :: nat], head = 0, cached_tail = 0, tail = 0, cached_head = 0\<rparr> \<and>
   length [10, 20 :: nat] = 2 \<and>
   (\<exists>q1 q2 q3.
      run 2 \<lparr>buffer = [0, 0, 0 :: nat], head = 0, cached_tail = 0, tail = 0, cached_head = 0\<rparr> (map Push [10, 20]) = Inr (replicate 2 (PushRet True), q1) \<and>
      push 2 q1 30 = Inr (False, q1) \<and>
      run 2 q1 (replicate 2 Pop) = Inr (map (\<lambda>v. PopRet (Some v)) [10, 20], q2) \<and>
      \<not> full 2 q2 \<and>
      push 2 q2 40 = Inr (True, q3)) \<and>
   (\<exists>rs q.
      run 2 \<lparr>buffer = [0, 0, 0 :: nat], head = 0, cached_tail = 0, tail = 0, cached_head = 0\<rparr> [Push 1, Push 2, Push 3, Pop] = Inr (rs, q) \<and>
      length (accepted [Push 1, Push 2, Push 3, Pop] rs) \<le> length (received rs) + 2)"
proof -
  have a: "(1::nat) \<le> 2"
    by simp
  have c: "(2::nat) < SIZE_MAX"
    by (simp add: SIZE_MAX_def)
  have f: "constructed 2 \<lparr>buffer = [0, 0, 0 :: nat], head = 0, cached_tail = 0, tail = 0, cached_head = 0\<rparr>"
    by (simp add: eval_defs)
  have l: "length [10, 20 :: nat] = 2"
    by simp
  note t = capacity_boundary [OF a c f l, of 30 40 "[Push 1, Push 2, Push 3, Pop]"]
  from a c f l t [THEN conjunct1] t [THEN conjunct2]
  show ?thesis by (intro conjI)
qed

subsection \<open>C3: the empty boundary\<close>

text \<open>
  C3. In every state that a sequence of calls reaches from a freshly constructed queue and
  in which \<open>head\<close> equals \<open>tail\<close>, \<open>pop\<close> returns nothing: it returns no stale or
  default element, and it leaves the queue as it is. In particular \<open>pop\<close> on the freshly
  constructed queue returns nothing.
\<close>

theorem pop_on_empty_is_absent:
  assumes "Capacity < SIZE_MAX" and "constructed Capacity q0"
    and "run Capacity q0 cs = Inr (rs, q)" and "head q = tail q"
  shows "pop Capacity q = Inr (None, q) \<and> pop Capacity q0 = Inr (None, q0)"
proof
  from reachable_inv [OF assms(1,2), of cs] assms(3) have i: "ring_inv Capacity q"
    by auto
  have "count Capacity q = 0"
    using assms(4) by (simp add: count_def ahead_self)
  from pop_empty [OF assms(1) i this] show "pop Capacity q = Inr (None, q)" .
next
  have "count Capacity q0 = 0"
    using constructed_contents [OF assms(2)] by (simp add: count_0_iff)
  from pop_empty [OF assms(1) constructed_inv [OF assms(1,2)] this]
  show "pop Capacity q0 = Inr (None, q0)" .
qed

theorem pop_on_empty_is_absent_witness:
  "(1::nat) < SIZE_MAX \<and>
   constructed 1 \<lparr>buffer = [0, 0 :: nat], head = 0, cached_tail = 0, tail = 0, cached_head = 0\<rparr> \<and>
   run 1 \<lparr>buffer = [0, 0 :: nat], head = 0, cached_tail = 0, tail = 0, cached_head = 0\<rparr> [Push 5, Pop] =
     Inr ([PushRet True, PopRet (Some 5)],
          \<lparr>buffer = [5, 0], head = 1, cached_tail = 1, tail = 1, cached_head = 0\<rparr>) \<and>
   head \<lparr>buffer = [5, 0 :: nat], head = 1, cached_tail = 1, tail = 1, cached_head = 0\<rparr> =
     tail \<lparr>buffer = [5, 0 :: nat], head = 1, cached_tail = 1, tail = 1, cached_head = 0\<rparr> \<and>
   pop 1 \<lparr>buffer = [5, 0 :: nat], head = 1, cached_tail = 1, tail = 1, cached_head = 0\<rparr> =
     Inr (None, \<lparr>buffer = [5, 0], head = 1, cached_tail = 1, tail = 1, cached_head = 0\<rparr>) \<and>
   pop 1 \<lparr>buffer = [0, 0 :: nat], head = 0, cached_tail = 0, tail = 0, cached_head = 0\<rparr> = Inr (None, \<lparr>buffer = [0, 0 :: nat], head = 0, cached_tail = 0, tail = 0, cached_head = 0\<rparr>)"
proof -
  have c: "(1::nat) < SIZE_MAX"
    by (simp add: SIZE_MAX_def)
  have f: "constructed 1 \<lparr>buffer = [0, 0 :: nat], head = 0, cached_tail = 0, tail = 0, cached_head = 0\<rparr>"
    by (simp add: eval_defs)
  have r: "run 1 \<lparr>buffer = [0, 0 :: nat], head = 0, cached_tail = 0, tail = 0, cached_head = 0\<rparr> [Push 5, Pop] =
     Inr ([PushRet True, PopRet (Some 5)],
          \<lparr>buffer = [5, 0], head = 1, cached_tail = 1, tail = 1, cached_head = 0\<rparr>)"
    by (simp add: eval_defs)
  have e: "head \<lparr>buffer = [5, 0 :: nat], head = 1, cached_tail = 1, tail = 1, cached_head = 0\<rparr> =
     tail \<lparr>buffer = [5, 0 :: nat], head = 1, cached_tail = 1, tail = 1, cached_head = 0\<rparr>"
    by simp
  note t = pop_on_empty_is_absent [OF c f r e]
  from c f r e t [THEN conjunct1] t [THEN conjunct2]
  show ?thesis by (intro conjI)
qed

subsection \<open>C4: a refused call changes nothing\<close>

text \<open>
  C4. Whenever \<open>push\<close> returns \<open>false\<close> the queue is exactly as before the call: no slot
  of the array, no cursor and no cached cursor has changed. (The refresh of
  \<open>cached_head\<close> on the slow path stores the value it already held.) Likewise whenever
  \<open>pop\<close> returns nothing the queue is exactly as before. This holds in every state of
  the five data members, reachable or not.
\<close>

theorem failed_call_leaves_state:
  "(push Capacity q x = Inr (False, q') \<longrightarrow> q' = q) \<and>
   (pop Capacity q = Inr (None, q'') \<longrightarrow> q'' = q)"
proof (intro conjI impI)
  assume "push Capacity q x = Inr (False, q')"
  then have "next_index Capacity (tail q) = cached_head q"
    and "next_index Capacity (tail q) = head q"
    and "q' = q\<lparr>cached_head := head q\<rparr>"
    by (auto simp: push_def Let_def split: if_splits)
  then show "q' = q" by simp
next
  assume "pop Capacity q = Inr (None, q'')"
  then have "head q = cached_tail q" and "head q = tail q"
    and "q'' = q\<lparr>cached_tail := tail q\<rparr>"
    by (auto simp: pop_def Let_def split: if_splits)
  then show "q'' = q" by simp
qed

theorem failed_call_leaves_state_witness:
  "push 1 \<lparr>buffer = [7, 0 :: nat], head = 0, cached_tail = 0, tail = 1, cached_head = 0\<rparr> 9 =
     Inr (False, \<lparr>buffer = [7, 0], head = 0, cached_tail = 0, tail = 1, cached_head = 0\<rparr>) \<and>
   pop 1 \<lparr>buffer = [0, 0 :: nat], head = 0, cached_tail = 0, tail = 0, cached_head = 0\<rparr> = Inr (None, \<lparr>buffer = [0, 0 :: nat], head = 0, cached_tail = 0, tail = 0, cached_head = 0\<rparr>)"
proof -
  let ?q = "\<lparr>buffer = [7, 0 :: nat], head = 0, cached_tail = 0, tail = 1, cached_head = 0\<rparr>"
  let ?e = "\<lparr>buffer = [0, 0 :: nat], head = 0, cached_tail = 0, tail = 0, cached_head = 0\<rparr>"
  obtain q' where p: "push 1 ?q 9 = Inr (False, q')"
    by (simp add: eval_defs)
  obtain q'' where o: "pop 1 ?e = Inr (None, q'')"
    by (simp add: eval_defs)
  note t = failed_call_leaves_state [of 1 ?q 9 q']
  note u = failed_call_leaves_state [of 1 ?e _ _ q'']
  from t [THEN conjunct1, THEN mp, OF p] have "q' = ?q" .
  moreover from u [THEN conjunct2, THEN mp, OF o] have "q'' = ?e" .
  ultimately show ?thesis using p o by simp
qed

subsection \<open>C5: the cursors stay inside the array\<close>

text \<open>
  C5. In every state that a sequence of \<open>push\<close> and \<open>pop\<close> calls reaches from a freshly
  constructed queue, \<open>0 \<le> head < N + 1\<close> and \<open>0 \<le> tail < N + 1\<close>, and the item count
  \<open>(tail - head) mod (N + 1)\<close> lies in \<open>[0, N]\<close>; it is the number of items accepted
  and not yet popped. Every single \<open>push\<close> and every single \<open>pop\<close> preserves this
  invariant.
\<close>

theorem cursor_invariant:
  assumes "Capacity < SIZE_MAX"
  shows "(constructed Capacity q0 \<and> run Capacity q0 cs = Inr (rs, q) \<longrightarrow>
            cursor_inv Capacity q \<and>
            (int (tail q) - int (head q)) mod int (Capacity + 1) =
              int (length (accepted cs rs)) - int (length (received rs))) \<and>
         (cursor_inv Capacity s \<and> push Capacity s x = Inr (b, s') \<longrightarrow> cursor_inv Capacity s') \<and>
         (cursor_inv Capacity s \<and> pop Capacity s = Inr (r, s'') \<longrightarrow> cursor_inv Capacity s'')"
proof (intro conjI impI)
  assume h: "constructed Capacity q0 \<and> run Capacity q0 cs = Inr (rs, q)"
  with reachable_inv [OF assms, of q0 cs] have i: "ring_inv Capacity q"
    and a: "accepted cs rs = received rs @ contents Capacity q"
    by auto
  note b = inv_bounds [OF assms i]
  from b(1,2) show "cursor_inv Capacity q"
    by (simp add: cursor_inv_iff)
  have "(int (tail q) - int (head q)) mod int (Suc Capacity) = int (count Capacity q)"
    using int_mod_ahead [OF b(1,2)] by (simp add: count_def buffer_size_eq assms)
  moreover have "length (accepted cs rs) = length (received rs) + count Capacity q"
    using a by (simp add: length_contents)
  ultimately show "(int (tail q) - int (head q)) mod int (Capacity + 1) =
      int (length (accepted cs rs)) - int (length (received rs))"
    by simp
next
  assume "cursor_inv Capacity s \<and> push Capacity s x = Inr (b, s')"
  then show "cursor_inv Capacity s'"
    using push_cursors [OF assms, of s x b s'] next_index_le [OF assms, of "tail s"]
    by (auto simp: cursor_inv_iff)
next
  assume "cursor_inv Capacity s \<and> pop Capacity s = Inr (r, s'')"
  then show "cursor_inv Capacity s''"
    using pop_cursors [OF assms, of s r s''] next_index_le [OF assms, of "head s"]
    by (auto simp: cursor_inv_iff)
qed

theorem cursor_invariant_witness:
  "(2::nat) < SIZE_MAX \<and>
   constructed 2 \<lparr>buffer = [0, 0, 0 :: nat], head = 0, cached_tail = 0, tail = 0, cached_head = 0\<rparr> \<and>
   run 2 \<lparr>buffer = [0, 0, 0 :: nat], head = 0, cached_tail = 0, tail = 0, cached_head = 0\<rparr> [Push 10, Push 20, Pop] =
     Inr ([PushRet True, PushRet True, PopRet (Some 10)],
          \<lparr>buffer = [10, 20, 0], head = 1, cached_tail = 2, tail = 2, cached_head = 0\<rparr>) \<and>
   cursor_inv 2 \<lparr>buffer = [10, 20, 0 :: nat], head = 1, cached_tail = 2, tail = 2, cached_head = 0\<rparr> \<and>
   (int (tail \<lparr>buffer = [10, 20, 0 :: nat], head = 1, cached_tail = 2, tail = 2, cached_head = 0\<rparr>)
      - int (head \<lparr>buffer = [10, 20, 0 :: nat], head = 1, cached_tail = 2, tail = 2, cached_head = 0\<rparr>))
     mod int (2 + 1) =
     int (length (accepted [Push 10, Push 20, Pop]
                     [PushRet True, PushRet True, PopRet (Some (10 :: nat))]))
       - int (length (received [PushRet True, PushRet True, PopRet (Some (10 :: nat))])) \<and>
   push 2 \<lparr>buffer = [10, 20, 0 :: nat], head = 1, cached_tail = 2, tail = 2, cached_head = 0\<rparr> 30 =
     Inr (True, \<lparr>buffer = [10, 20, 30], head = 1, cached_tail = 2, tail = 0, cached_head = 1\<rparr>) \<and>
   cursor_inv 2 \<lparr>buffer = [10, 20, 30 :: nat], head = 1, cached_tail = 2, tail = 0, cached_head = 1\<rparr> \<and>
   pop 2 \<lparr>buffer = [10, 20, 0 :: nat], head = 1, cached_tail = 2, tail = 2, cached_head = 0\<rparr> =
     Inr (Some 20, \<lparr>buffer = [10, 20, 0], head = 2, cached_tail = 2, tail = 2, cached_head = 0\<rparr>) \<and>
   cursor_inv 2 \<lparr>buffer = [10, 20, 0 :: nat], head = 2, cached_tail = 2, tail = 2, cached_head = 0\<rparr>"
proof -
  let ?q = "\<lparr>buffer = [10, 20, 0 :: nat], head = 1, cached_tail = 2, tail = 2, cached_head = 0\<rparr>"
  have c: "(2::nat) < SIZE_MAX"
    by (simp add: SIZE_MAX_def)
  have f: "constructed 2 \<lparr>buffer = [0, 0, 0 :: nat], head = 0, cached_tail = 0, tail = 0, cached_head = 0\<rparr>"
    by (simp add: eval_defs)
  have r: "run 2 \<lparr>buffer = [0, 0, 0 :: nat], head = 0, cached_tail = 0, tail = 0, cached_head = 0\<rparr> [Push 10, Push 20, Pop] =
     Inr ([PushRet True, PushRet True, PopRet (Some 10)], ?q)"
    by (simp add: eval_defs)
  have p: "push 2 ?q 30 =
     Inr (True, \<lparr>buffer = [10, 20, 30], head = 1, cached_tail = 2, tail = 0, cached_head = 1\<rparr>)"
    by (simp add: eval_defs)
  have o: "pop 2 ?q =
     Inr (Some 20, \<lparr>buffer = [10, 20, 0], head = 2, cached_tail = 2, tail = 2, cached_head = 0\<rparr>)"
    by (simp add: eval_defs)
  note t = cursor_invariant [OF c, of "\<lparr>buffer = [0, 0, 0 :: nat], head = 0, cached_tail = 0, tail = 0, cached_head = 0\<rparr>" "[Push 10, Push 20, Pop]"
      "[PushRet True, PushRet True, PopRet (Some 10)]" ?q ?q 30 True
      "\<lparr>buffer = [10, 20, 30], head = 1, cached_tail = 2, tail = 0, cached_head = 1\<rparr>"
      "Some 20"
      "\<lparr>buffer = [10, 20, 0], head = 2, cached_tail = 2, tail = 2, cached_head = 0\<rparr>"]
  note a = t [THEN conjunct1, THEN mp, OF conjI [OF f r]]
  note 1 = a [THEN conjunct1] and 2 = a [THEN conjunct2]
  note 3 = t [THEN conjunct2, THEN conjunct1, THEN mp, OF conjI [OF 1 p]]
  note 4 = t [THEN conjunct2, THEN conjunct2, THEN mp, OF conjI [OF 1 o]]
  from c f r 1 2 p 3 o 4 show ?thesis by (intro conjI)
qed

subsection \<open>C6: what \<open>empty()\<close> and \<open>full()\<close> compute\<close>

text \<open>
  C6. For every queue state, that is, every value of the data members whose \<open>tail\<close>
  cursor lies inside the array as the data model requires, \<open>empty()\<close> returns true iff
  \<open>head = tail\<close> and \<open>full()\<close> returns true iff \<open>(tail + 1) mod (N + 1) = head\<close>. Both
  only read the two cursors and compare.
\<close>

theorem empty_full_conditions:
  assumes "Capacity < SIZE_MAX" and "tail q < Capacity + 1"
  shows "(empty_q q \<longleftrightarrow> head q = tail q) \<and>
         (full Capacity q \<longleftrightarrow> (tail q + 1) mod (Capacity + 1) = head q)"
  using assms by (simp add: empty_q_def full_def next_index_mod)

theorem empty_full_conditions_witness:
  "(2::nat) < SIZE_MAX \<and>
   tail \<lparr>buffer = [10, 20, 0 :: nat], head = 0, cached_tail = 0, tail = 2, cached_head = 0\<rparr> < 2 + 1 \<and>
   (empty_q \<lparr>buffer = [10, 20, 0 :: nat], head = 0, cached_tail = 0, tail = 2, cached_head = 0\<rparr> \<longleftrightarrow>
      head \<lparr>buffer = [10, 20, 0 :: nat], head = 0, cached_tail = 0, tail = 2, cached_head = 0\<rparr> =
      tail \<lparr>buffer = [10, 20, 0 :: nat], head = 0, cached_tail = 0, tail = 2, cached_head = 0\<rparr>) \<and>
   (full 2 \<lparr>buffer = [10, 20, 0 :: nat], head = 0, cached_tail = 0, tail = 2, cached_head = 0\<rparr> \<longleftrightarrow>
      (tail \<lparr>buffer = [10, 20, 0 :: nat], head = 0, cached_tail = 0, tail = 2, cached_head = 0\<rparr> + 1)
        mod (2 + 1) =
      head \<lparr>buffer = [10, 20, 0 :: nat], head = 0, cached_tail = 0, tail = 2, cached_head = 0\<rparr>)"
proof -
  let ?q = "\<lparr>buffer = [10, 20, 0 :: nat], head = 0, cached_tail = 0, tail = 2, cached_head = 0\<rparr>"
  have c: "(2::nat) < SIZE_MAX"
    by (simp add: SIZE_MAX_def)
  have t: "tail ?q < 2 + 1"
    by simp
  note e = empty_full_conditions [OF c t]
  from c t e [THEN conjunct1] e [THEN conjunct2]
  show ?thesis by (intro conjI)
qed

subsection \<open>C7: never both empty and full\<close>

text \<open>
  C7. For every capacity \<open>C \<ge> 1\<close>, the single-slot queue \<open>C = 1\<close> included, the empty
  condition \<open>head = tail\<close> and the full condition \<open>(tail + 1) mod (N + 1) = head\<close> never
  hold together, so \<open>empty()\<close> and \<open>full()\<close> never both return true on the same state.
  This holds in every state of the data members, hence in every reachable one.
\<close>

theorem empty_full_exclusive:
  assumes "1 \<le> Capacity" and "Capacity < SIZE_MAX"
  shows "\<not> (empty_q q \<and> full Capacity q)"
proof
  assume "empty_q q \<and> full Capacity q"
  then have e: "size_t (tail q + 1) mod Suc Capacity = tail q"
    by (simp add: empty_q_def full_def next_index_def buffer_size_eq assms(2))
  have "size_t (tail q + 1) mod Suc Capacity < Suc Capacity"
    by simp
  with e have t: "tail q \<le> Capacity" by simp
  then have "next_index Capacity (tail q) = (if tail q = Capacity then 0 else Suc (tail q))"
    by (rule next_index_eq [OF assms(2)])
  with e assms(1) show False
    by (simp add: next_index_def buffer_size_eq assms(2) split: if_splits)
qed

theorem empty_full_exclusive_witness:
  "(1::nat) \<le> 1 \<and> (1::nat) < SIZE_MAX \<and>
   \<not> (empty_q \<lparr>buffer = [0, 0 :: nat], head = 0, cached_tail = 0, tail = 0, cached_head = 0\<rparr> \<and> full 1 \<lparr>buffer = [0, 0 :: nat], head = 0, cached_tail = 0, tail = 0, cached_head = 0\<rparr>)"
proof -
  have a: "(1::nat) \<le> 1"
    by simp
  have c: "(1::nat) < SIZE_MAX"
    by (simp add: SIZE_MAX_def)
  from a c empty_full_exclusive [OF a c, of "\<lparr>buffer = [0, 0 :: nat], head = 0, cached_tail = 0, tail = 0, cached_head = 0\<rparr>"]
  show ?thesis by (intro conjI)
qed

subsection \<open>C8: the cached cursors err on the safe side\<close>

text \<open>
  C8. In every state that a sequence of \<open>push\<close> and \<open>pop\<close> calls reaches from a freshly
  constructed queue, the producer's cached cursor never under-estimates the occupancy
  and the consumer's never over-estimates it:
  \<open>(tail - cached_head) mod (N + 1) \<ge> (tail - head) mod (N + 1)\<close> and
  \<open>(cached_tail - head) mod (N + 1) \<le> (tail - head) mod (N + 1)\<close>. The live items of the
  state are the accepted items not yet popped. Consequently, when \<open>push\<close> takes its fast
  path (\<open>next_index(tail) \<noteq> cached_head\<close>) the queue is not full and the call keeps every
  live item and appends the new one; when \<open>pop\<close> takes its fast path
  (\<open>head \<noteq> cached_tail\<close>) the queue is not empty and the value read is the oldest live
  item.
\<close>

theorem cached_cursors_conservative:
  assumes "Capacity < SIZE_MAX" and "constructed Capacity q0"
    and "run Capacity q0 cs = Inr (rs, q)"
  shows "(int (tail q) - int (head q)) mod int (Capacity + 1)
           \<le> (int (tail q) - int (cached_head q)) mod int (Capacity + 1) \<and>
         (int (cached_tail q) - int (head q)) mod int (Capacity + 1)
           \<le> (int (tail q) - int (head q)) mod int (Capacity + 1) \<and>
         accepted cs rs = received rs @ contents Capacity q \<and>
         (next_index Capacity (tail q) \<noteq> cached_head q \<longrightarrow>
            next_index Capacity (tail q) \<noteq> head q \<and>
            (\<exists>q'. push Capacity q x = Inr (True, q') \<and>
                  contents Capacity q' = contents Capacity q @ [x])) \<and>
         (head q \<noteq> cached_tail q \<longrightarrow>
            head q \<noteq> tail q \<and>
            (\<exists>v q'. pop Capacity q = Inr (Some v, q') \<and>
                    contents Capacity q = v # contents Capacity q'))"
proof -
  from reachable_inv [OF assms(1,2), of cs] assms(3) have i: "ring_inv Capacity q"
    and a: "accepted cs rs = received rs @ contents Capacity q"
    by auto
  note b = inv_bounds [OF assms(1) i]
  note cs = count_split [OF assms(1) i]
  note sp = span_split [OF assms(1) i]
  have c: "count Capacity q = ahead (Suc Capacity) (head q) (tail q)"
    by (simp add: count_def buffer_size_eq assms(1))
  have 1: "(int (tail q) - int (head q)) mod int (Capacity + 1)
           \<le> (int (tail q) - int (cached_head q)) mod int (Capacity + 1)"
    using int_mod_ahead [OF b(1,2)] int_mod_ahead [OF b(3,2)] sp c by simp
  have 2: "(int (cached_tail q) - int (head q)) mod int (Capacity + 1)
           \<le> (int (tail q) - int (head q)) mod int (Capacity + 1)"
    using int_mod_ahead [OF b(1,2)] int_mod_ahead [OF b(1,4)] cs c by simp
  have 3: "next_index Capacity (tail q) \<noteq> head q \<and>
            (\<exists>q'. push Capacity q x = Inr (True, q') \<and>
                  contents Capacity q' = contents Capacity q @ [x])"
    if f: "next_index Capacity (tail q) \<noteq> cached_head q"
  proof -
    have "ahead (Suc Capacity) (cached_head q) (next_index Capacity (tail q)) \<noteq> 0"
      using f b(3) next_index_le [OF assms(1), of "tail q"]
        ahead_eq_0 [of "cached_head q" Capacity "next_index Capacity (tail q)"] by simp
    then have "ahead (Suc Capacity) (cached_head q) (tail q) \<noteq> Capacity"
      using b(2,3) by (simp add: ahead_next_right assms(1) split: if_splits)
    then have lt: "count Capacity q < Capacity"
      using sp b(6) cs by simp
    then have "\<not> full Capacity q"
      by (simp add: full_iff_count [OF assms(1) i])
    then have "next_index Capacity (tail q) \<noteq> head q"
      by (simp add: full_def)
    moreover from push_ok [OF assms(1) i lt, of x]
    have "\<exists>q'. push Capacity q x = Inr (True, q') \<and>
                  contents Capacity q' = contents Capacity q @ [x]" by blast
    ultimately show ?thesis by blast
  qed
  have 4: "head q \<noteq> tail q \<and>
            (\<exists>v q'. pop Capacity q = Inr (Some v, q') \<and>
                    contents Capacity q = v # contents Capacity q')"
    if f: "head q \<noteq> cached_tail q"
  proof -
    have "ahead (Suc Capacity) (head q) (cached_tail q) \<noteq> 0"
      using f b(1,4) by (simp add: ahead_eq_0)
    then have gt: "0 < count Capacity q"
      using cs by simp
    then have "head q \<noteq> tail q"
      by (auto simp: count_def ahead_self)
    moreover from pop_ok [OF assms(1) i gt]
    have "\<exists>v q'. pop Capacity q = Inr (Some v, q') \<and>
                    contents Capacity q = v # contents Capacity q'" by blast
    ultimately show ?thesis by blast
  qed
  from 1 2 a 3 4 show ?thesis by blast
qed

theorem cached_cursors_conservative_witness:
  "(3::nat) < SIZE_MAX \<and>
   constructed 3 \<lparr>buffer = [0, 0, 0, 0 :: nat], head = 0, cached_tail = 0, tail = 0, cached_head = 0\<rparr> \<and>
   run 3 \<lparr>buffer = [0, 0, 0, 0 :: nat], head = 0, cached_tail = 0, tail = 0, cached_head = 0\<rparr> [Push 10, Push 20, Pop] =
     Inr ([PushRet True, PushRet True, PopRet (Some 10)], \<lparr>buffer = [10, 20, 0, 0 :: nat], head = 1, cached_tail = 2, tail = 2, cached_head = 0\<rparr>) \<and>
   (int (tail \<lparr>buffer = [10, 20, 0, 0 :: nat], head = 1, cached_tail = 2, tail = 2, cached_head = 0\<rparr>) - int (head \<lparr>buffer = [10, 20, 0, 0 :: nat], head = 1, cached_tail = 2, tail = 2, cached_head = 0\<rparr>)) mod int (3 + 1)
     \<le> (int (tail \<lparr>buffer = [10, 20, 0, 0 :: nat], head = 1, cached_tail = 2, tail = 2, cached_head = 0\<rparr>) - int (cached_head \<lparr>buffer = [10, 20, 0, 0 :: nat], head = 1, cached_tail = 2, tail = 2, cached_head = 0\<rparr>)) mod int (3 + 1) \<and>
   (int (cached_tail \<lparr>buffer = [10, 20, 0, 0 :: nat], head = 1, cached_tail = 2, tail = 2, cached_head = 0\<rparr>) - int (head \<lparr>buffer = [10, 20, 0, 0 :: nat], head = 1, cached_tail = 2, tail = 2, cached_head = 0\<rparr>)) mod int (3 + 1)
     \<le> (int (tail \<lparr>buffer = [10, 20, 0, 0 :: nat], head = 1, cached_tail = 2, tail = 2, cached_head = 0\<rparr>) - int (head \<lparr>buffer = [10, 20, 0, 0 :: nat], head = 1, cached_tail = 2, tail = 2, cached_head = 0\<rparr>)) mod int (3 + 1) \<and>
   accepted [Push 10, Push 20, Pop] [PushRet True, PushRet True, PopRet (Some 10)] =
     received [PushRet True, PushRet True, PopRet (Some 10)] @ contents 3 \<lparr>buffer = [10, 20, 0, 0 :: nat], head = 1, cached_tail = 2, tail = 2, cached_head = 0\<rparr> \<and>
   next_index 3 (tail \<lparr>buffer = [10, 20, 0, 0 :: nat], head = 1, cached_tail = 2, tail = 2, cached_head = 0\<rparr>) \<noteq> cached_head \<lparr>buffer = [10, 20, 0, 0 :: nat], head = 1, cached_tail = 2, tail = 2, cached_head = 0\<rparr> \<and>
   next_index 3 (tail \<lparr>buffer = [10, 20, 0, 0 :: nat], head = 1, cached_tail = 2, tail = 2, cached_head = 0\<rparr>) \<noteq> head \<lparr>buffer = [10, 20, 0, 0 :: nat], head = 1, cached_tail = 2, tail = 2, cached_head = 0\<rparr> \<and>
   (\<exists>q'. push 3 \<lparr>buffer = [10, 20, 0, 0 :: nat], head = 1, cached_tail = 2, tail = 2, cached_head = 0\<rparr> 30 = Inr (True, q') \<and> contents 3 q' = contents 3 \<lparr>buffer = [10, 20, 0, 0 :: nat], head = 1, cached_tail = 2, tail = 2, cached_head = 0\<rparr> @ [30]) \<and>
   head \<lparr>buffer = [10, 20, 0, 0 :: nat], head = 1, cached_tail = 2, tail = 2, cached_head = 0\<rparr> \<noteq> cached_tail \<lparr>buffer = [10, 20, 0, 0 :: nat], head = 1, cached_tail = 2, tail = 2, cached_head = 0\<rparr> \<and>
   head \<lparr>buffer = [10, 20, 0, 0 :: nat], head = 1, cached_tail = 2, tail = 2, cached_head = 0\<rparr> \<noteq> tail \<lparr>buffer = [10, 20, 0, 0 :: nat], head = 1, cached_tail = 2, tail = 2, cached_head = 0\<rparr> \<and>
   (\<exists>v q'. pop 3 \<lparr>buffer = [10, 20, 0, 0 :: nat], head = 1, cached_tail = 2, tail = 2, cached_head = 0\<rparr> = Inr (Some v, q') \<and> contents 3 \<lparr>buffer = [10, 20, 0, 0 :: nat], head = 1, cached_tail = 2, tail = 2, cached_head = 0\<rparr> = v # contents 3 q')"
proof -
  let ?q = "\<lparr>buffer = [10, 20, 0, 0 :: nat], head = 1, cached_tail = 2, tail = 2, cached_head = 0\<rparr>"
  have c: "(3::nat) < SIZE_MAX"
    by (simp add: SIZE_MAX_def)
  have f: "constructed 3 \<lparr>buffer = [0, 0, 0, 0 :: nat], head = 0, cached_tail = 0, tail = 0, cached_head = 0\<rparr>"
    by (simp add: eval_defs)
  have r: "run 3 \<lparr>buffer = [0, 0, 0, 0 :: nat], head = 0, cached_tail = 0, tail = 0, cached_head = 0\<rparr> [Push 10, Push 20, Pop] =
     Inr ([PushRet True, PushRet True, PopRet (Some 10)], ?q)"
    by (simp add: eval_defs)
  have p: "next_index 3 (tail ?q) \<noteq> cached_head ?q"
    by (simp add: eval_defs)
  have o: "head ?q \<noteq> cached_tail ?q"
    by simp
  note t = cached_cursors_conservative [OF c f r, of 30]
  note t1 = t [THEN conjunct1]
    and t2 = t [THEN conjunct2, THEN conjunct1]
    and t3 = t [THEN conjunct2, THEN conjunct2, THEN conjunct1]
    and t4 = t [THEN conjunct2, THEN conjunct2, THEN conjunct2, THEN conjunct1, THEN mp, OF p]
    and t5 = t [THEN conjunct2, THEN conjunct2, THEN conjunct2, THEN conjunct2, THEN mp, OF o]
  from c f r t1 t2 t3 p t4 [THEN conjunct1] t4 [THEN conjunct2]
    o t5 [THEN conjunct1] t5 [THEN conjunct2]
  show ?thesis by (intro conjI)
qed

subsection \<open>C9: every call returns\<close>

text \<open>
  C9. \<open>push\<close> and \<open>pop\<close> are straight-line code: their embeddings above are plain
  definitions, with no recursion and nothing to wait for. What remains to prove is
  that they return a result at all, that is, that no call indexes the array out of range.
  From a freshly constructed queue every call of every sequence of calls returns, and in
  the state reached a further \<open>push\<close> of any value returns \<open>true\<close> or \<open>false\<close> and a
  further \<open>pop\<close> returns a value or nothing.
\<close>

theorem calls_always_return:
  assumes "Capacity < SIZE_MAX" and "constructed Capacity q0"
  shows "\<exists>rs q. run Capacity q0 cs = Inr (rs, q) \<and> length rs = length cs \<and>
           (\<exists>b q'. push Capacity q x = Inr (b, q')) \<and>
           (\<exists>r q'. pop Capacity q = Inr (r, q'))"
proof -
  from reachable_inv [OF assms, of cs] obtain rs q where
    r: "run Capacity q0 cs = Inr (rs, q)" and i: "ring_inv Capacity q"
    and l: "length rs = length cs"
    by blast
  from exec_push_inv [OF assms(1) i, of x] have "\<exists>b q'. push Capacity q x = Inr (b, q')"
    by (auto split: sum.splits)
  moreover from exec_pop_inv [OF assms(1) i] have "\<exists>r q'. pop Capacity q = Inr (r, q')"
    by (auto split: sum.splits)
  ultimately show ?thesis using r l by blast
qed

theorem calls_always_return_witness:
  "(2::nat) < SIZE_MAX \<and>
   constructed 2 \<lparr>buffer = [0, 0, 0 :: nat], head = 0, cached_tail = 0, tail = 0, cached_head = 0\<rparr> \<and>
   (\<exists>rs q.
      run 2 \<lparr>buffer = [0, 0, 0 :: nat], head = 0, cached_tail = 0, tail = 0, cached_head = 0\<rparr> [Push 10, Push 20, Push 30, Pop, Pop, Pop] = Inr (rs, q) \<and>
      length rs = length [Push 10, Push 20, Push 30, Pop, Pop, Pop :: nat call] \<and>
      (\<exists>b q'. push 2 q 40 = Inr (b, q')) \<and>
      (\<exists>r q'. pop 2 q = Inr (r, q')))"
proof -
  have c: "(2::nat) < SIZE_MAX"
    by (simp add: SIZE_MAX_def)
  have f: "constructed 2 \<lparr>buffer = [0, 0, 0 :: nat], head = 0, cached_tail = 0, tail = 0, cached_head = 0\<rparr>"
    by (simp add: eval_defs)
  from c f calls_always_return [OF c f, of "[Push 10, Push 20, Push 30, Pop, Pop, Pop]" 40]
  show ?thesis by (intro conjI)
qed

end
